theory Spec2Isabelle
  imports Main
begin

section \<open>Data model\<close>

text \<open>
  The program works on a networkx \<open>Graph\<close> whose nodes carry a \<open>bipartite\<close> attribute
  (0 for one side, 1 for the other). The record keeps the nodes and the edges in the
  order in which \<open>g.nodes()\<close> and \<open>g.edges()\<close> report them, every undirected edge once,
  as the pair \<open>g.edges()\<close> yields for it. The attribute is total on the record: the
  modelled graphs are those in which every node was added with the attribute, so that
  \<open>g.node[v]['bipartite']\<close> is defined for every node \<open>v\<close>.
\<close>

datatype error = NetworkXError | IndexError

type_synonym 'v edge = "'v \<times> 'v"

record 'v graph =
  nodes :: "'v list"
  bipartite :: "'v \<Rightarrow> nat"
  edges :: "'v edge list"

text \<open>\<open>g.remove_node(n)\<close> raises NetworkXError when \<open>n\<close> is not a node of \<open>g\<close>;
  otherwise the node goes, with every edge incident to it.\<close>

definition remove_node :: "'v graph \<Rightarrow> 'v \<Rightarrow> error + 'v graph" where
  "remove_node g n =
     (if n \<in> set (nodes g)
      then Inr (g\<lparr>nodes := removeAll n (nodes g),
                 edges := filter (\<lambda>ee. fst ee \<noteq> n \<and> snd ee \<noteq> n) (edges g)\<rparr>)
      else Inl NetworkXError)"

text \<open>\<open>g.remove_edge(u, v)\<close> raises NetworkXError when there is no edge between \<open>u\<close>
  and \<open>v\<close>; the graph is undirected, so the edge is found in either orientation.\<close>

definition remove_edge :: "'v graph \<Rightarrow> 'v \<Rightarrow> 'v \<Rightarrow> error + 'v graph" where
  "remove_edge g u v =
     (if (u, v) \<in> set (edges g) \<or> (v, u) \<in> set (edges g)
      then Inr (g\<lparr>edges := filter (\<lambda>ee. ee \<noteq> (u, v) \<and> ee \<noteq> (v, u)) (edges g)\<rparr>)
      else Inl NetworkXError)"

text \<open>\<open>nx.isolates(g)\<close>: the nodes of degree 0.\<close>

definition isolates :: "'v graph \<Rightarrow> 'v list" where
  "isolates g = filter (\<lambda>n. \<forall>ee \<in> set (edges g). fst ee \<noteq> n \<and> snd ee \<noteq> n) (nodes g)"

subsection \<open>The library calls\<close>

text \<open>
  The functions of networkx that the program calls, and the iteration order of a Python
  set, are parameters of the model:
  \<^item> \<open>hopcroft_karp_matching g\<close> is the list of the items of the dictionary that
    \<open>bipartite.hopcroft_karp_matching(g)\<close> returns (or the error it raises);
  \<^item> \<open>simple_cycles d\<close> is \<open>list(nx.simple_cycles(d))\<close> for the digraph with arcs \<open>d\<close>;
  \<^item> \<open>single_source_shortest_path d s c\<close> is the list of the items of the dictionary
    \<open>nx.single_source_shortest_path(d, s, cutoff=c)\<close>;
  \<^item> \<open>list_of_node_set xs\<close> and \<open>list_of_edge_set xs\<close> are \<open>list(s)\<close> for the Python
    set \<open>s\<close> whose elements are those of \<open>xs\<close>.
\<close>

record 'v library =
  hopcroft_karp_matching :: "'v graph \<Rightarrow> error + ('v \<times> 'v) list"
  simple_cycles :: "'v edge list \<Rightarrow> 'v list list"
  single_source_shortest_path :: "'v edge list \<Rightarrow> 'v \<Rightarrow> nat \<Rightarrow> ('v \<times> 'v list) list"
  list_of_node_set :: "'v list \<Rightarrow> 'v list"
  list_of_edge_set :: "'v edge list \<Rightarrow> 'v edge list"

section \<open>The list-based enumeration\<close>

text \<open>\<open>formDirected\<close>: the digraph \<open>d\<close>, as the list of its arcs. An edge of the
  matching points from side 0 to side 1, every other edge from side 1 to side 0.\<close>

definition formDirected :: "'v graph \<Rightarrow> 'v edge list \<Rightarrow> 'v edge list" where
  "formDirected g match =
     map (\<lambda>ee.
        if ee \<in> set match \<or> (snd ee, fst ee) \<in> set match
        then (if bipartite g (fst ee) = 0 then (fst ee, snd ee) else (snd ee, fst ee))
        else (if bipartite g (fst ee) = 0 then (snd ee, fst ee) else (fst ee, snd ee)))
       (edges g)"

text \<open>\<open>d.reverse()\<close>.\<close>

definition reverse :: "'v edge list \<Rightarrow> 'v edge list" where
  "reverse d = map (\<lambda>ee. (snd ee, fst ee)) d"

text \<open>\<open>zip(p[:-1], p[1:])\<close>: the consecutive pairs of a node list.\<close>

definition arcs_of :: "'v list \<Rightarrow> 'v edge list" where
  "arcs_of p = zip (butlast p) (tl p)"

text \<open>The loop that builds \<open>new_match\<close> from the arcs of \<open>d\<close> and the arcs of the chosen
  cycle or path, followed by the loop that appends the edges of \<open>add_e\<close>.\<close>

definition new_match_of ::
  "'v graph \<Rightarrow> 'v edge list \<Rightarrow> 'v edge list \<Rightarrow> 'v edge list option \<Rightarrow> 'v edge list" where
  "new_match_of g d arcs add_e =
     concat (map (\<lambda>ee.
        if ee \<in> set arcs
        then (if bipartite g (snd ee) = 0 then [(snd ee, fst ee)] else [])
        else (if bipartite g (fst ee) = 0 then [ee] else [])) d)
     @ (case add_e of None \<Rightarrow> [] | Some a \<Rightarrow> a)"

text \<open>The lines "Form subproblems": \<open>g_plus\<close> loses both end points of \<open>e\<close>, \<open>g_minus\<close>
  loses the edge \<open>e\<close>, and \<open>add_e_new\<close> is \<open>e\<close> followed by \<open>add_e\<close>.\<close>

definition form_subproblems ::
  "'v graph \<Rightarrow> 'v edge \<Rightarrow> 'v edge list option
     \<Rightarrow> error + ('v graph \<times> 'v graph \<times> 'v edge list)" where
  "form_subproblems g e add_e =
     (case remove_node g (fst e) of Inl err \<Rightarrow> Inl err
      | Inr g1 \<Rightarrow>
     (case remove_node g1 (snd e) of Inl err \<Rightarrow> Inl err
      | Inr g_plus \<Rightarrow>
     (case remove_edge g (fst e) (snd e) of Inl err \<Rightarrow> Inl err
      | Inr g_minus \<Rightarrow>
        Inr (g_plus, g_minus, e # (case add_e of None \<Rightarrow> [] | Some a \<Rightarrow> a)))))"

text \<open>The \<open>while True\<close> loop over \<open>all_uncovered\<close>: the first uncovered node that is not
  isolated and has a path of two arcs in \<open>d\<close>, or else in \<open>d.reverse()\<close>. The result is
  \<open>(len2paths, reversed)\<close>, or \<open>None\<close> where the source returns \<open>all_matches\<close> because
  the index ran past the list.\<close>

fun find_len2paths ::
  "'v library \<Rightarrow> 'v graph \<Rightarrow> 'v edge list \<Rightarrow> 'v list \<Rightarrow> ('v list list \<times> bool) option" where
  "find_len2paths L g d [] = None"
| "find_len2paths L g d (uncovered # rest) =
     (if uncovered \<notin> set (isolates g)
      then
        (let len2paths = map snd (filter (\<lambda>kv. length (snd kv) = 3)
                            (single_source_shortest_path L d uncovered 2))
         in if len2paths \<noteq> [] then Some (len2paths, False)
            else
              (let len2paths = map snd (filter (\<lambda>kv. length (snd kv) = 3)
                                  (single_source_shortest_path L (reverse d) uncovered 2))
               in if len2paths \<noteq> [] then Some (len2paths, True)
                  else find_len2paths L g d rest))
      else find_len2paths L g d rest)"

text \<open>
  One call of \<open>enumMaximumMatchingIter\<close> up to its two self-calls. The result is an error,
  or \<open>None\<close> where the call returns \<open>all_matches\<close> unchanged, or the matching that the call
  appends to \<open>all_matches\<close> together with the arguments \<open>(g, match, add_e)\<close> of the first and
  of the second self-call.
\<close>

type_synonym 'v call = "'v graph \<times> 'v edge list \<times> 'v edge list option"

definition path_case ::
  "'v library \<Rightarrow> 'v graph \<Rightarrow> 'v edge list \<Rightarrow> 'v edge list option \<Rightarrow> 'v edge list
     \<Rightarrow> error + ('v edge list \<times> 'v call \<times> 'v call) option" where
  "path_case L g match add_e d =
     (let all_uncovered = list_of_node_set L
            (filter (\<lambda>n. n \<notin> set (map fst match) \<and> n \<notin> set (map snd match)) (nodes g))
      in if all_uncovered = [] then Inr None
         else
          (case find_len2paths L g d all_uncovered of
             None \<Rightarrow> Inr None
           | Some (len2paths, reversed) \<Rightarrow>
              (let len2path = arcs_of (if reversed then rev (hd len2paths) else hd len2paths);
                   new_match = new_match_of g d len2path add_e
               in case list_of_edge_set L (filter (\<lambda>a. a \<notin> set match) len2path) of
                    [] \<Rightarrow> Inl IndexError
                  | e # _ \<Rightarrow>
                     (case form_subproblems g e add_e of
                        Inl err \<Rightarrow> Inl err
                      | Inr (g_plus, g_minus, add_e_new) \<Rightarrow>
                          Inr (Some (new_match,
                                     (g_minus, match, add_e),
                                     (g_plus, new_match, Some add_e_new)))))))"

definition cycle_case ::
  "'v library \<Rightarrow> 'v graph \<Rightarrow> 'v edge list \<Rightarrow> 'v edge list option \<Rightarrow> 'v edge list
     \<Rightarrow> 'v list \<Rightarrow> error + ('v edge list \<times> 'v call \<times> 'v call) option" where
  "cycle_case L g match add_e d cycle0 =
     (if cycle0 = [] then Inl IndexError
      else
       (let cycle = arcs_of (cycle0 @ [hd cycle0]);
            new_match = new_match_of g d cycle add_e
        in case list_of_edge_set L (filter (\<lambda>a. a \<in> set cycle) match) of
             [] \<Rightarrow> Inl IndexError
           | e # _ \<Rightarrow>
              (case form_subproblems g e add_e of
                 Inl err \<Rightarrow> Inl err
               | Inr (g_plus, g_minus, add_e_new) \<Rightarrow>
                   Inr (Some (new_match,
                              (g_minus, new_match, add_e),
                              (g_plus, match, Some add_e_new))))))"

definition iter_step ::
  "'v library \<Rightarrow> 'v graph \<Rightarrow> 'v edge list \<Rightarrow> 'v edge list option
     \<Rightarrow> error + ('v edge list \<times> 'v call \<times> 'v call) option" where
  "iter_step L g match add_e =
     (let d = formDirected g match;
          cycles = simple_cycles L d
      in if cycles = [] then path_case L g match add_e d
         else cycle_case L g match add_e d (hd cycles))"

text \<open>What a step shows of its two self-calls once the attribute function of the graphs
  is left out: the nodes and the edges of the graph, the matching and \<open>add_e\<close>.\<close>

definition call_view ::
  "'v call \<Rightarrow> 'v list \<times> 'v edge list \<times> 'v edge list \<times> 'v edge list option" where
  "call_view c = (nodes (fst c), edges (fst c), fst (snd c), snd (snd c))"

definition step_view ::
  "error + ('v edge list \<times> 'v call \<times> 'v call) option
     \<Rightarrow> error + ('v edge list \<times>
           ('v list \<times> 'v edge list \<times> 'v edge list \<times> 'v edge list option) \<times>
           ('v list \<times> 'v edge list \<times> 'v edge list \<times> 'v edge list option)) option" where
  "step_view r =
     map_sum id (map_option (\<lambda>t. (fst t, call_view (fst (snd t)), call_view (snd (snd t))))) r"

text \<open>
  \<open>enumMaximumMatchingIter\<close>: what \<open>iter_step\<close> computes, then the two self-calls, the
  second on the list that the first returns. An error raised in the first self-call
  leaves the call before the second is made.
\<close>

function enumMaximumMatchingIter ::
  "'v library \<Rightarrow> 'v graph \<Rightarrow> 'v edge list \<Rightarrow> 'v edge list list \<Rightarrow> 'v edge list option
     \<Rightarrow> error + 'v edge list list" where
  "enumMaximumMatchingIter L g match all_matches add_e =
     (case iter_step L g match add_e of
        Inl err \<Rightarrow> Inl err
      | Inr None \<Rightarrow> Inr all_matches
      | Inr (Some (new_match, (gA, mA, aA), (gB, mB, aB))) \<Rightarrow>
          (case enumMaximumMatchingIter L gA mA (all_matches @ [new_match]) aA of
             Inl err \<Rightarrow> Inl err
           | Inr all_matches' \<Rightarrow> enumMaximumMatchingIter L gB mB all_matches' aB))"
  by pat_completeness auto
termination
proof (relation "measure (\<lambda>(L, g, match, all_matches, add_e).
                   length (nodes g) + length (edges g))")
  have smaller: "length (nodes gA) + length (edges gA) < length (nodes g) + length (edges g)
      \<and> length (nodes gB) + length (edges gB) < length (nodes g) + length (edges g)"
    if st: "iter_step L g match add_e = Inr (Some (new_match, (gA, mA, aA), (gB, mB, aB)))"
    for L :: "'v library" and g match add_e new_match gA mA aA gB mB aB
  proof -
    from st obtain e a where f: "form_subproblems g e add_e = Inr (gB, gA, a)"
      by (auto simp: iter_step_def path_case_def cycle_case_def Let_def
          split: if_splits option.splits list.splits sum.splits prod.splits)
    then obtain g1 where g1: "remove_node g (fst e) = Inr g1"
      and gB: "remove_node g1 (snd e) = Inr gB"
      and gA: "remove_edge g (fst e) (snd e) = Inr gA"
      by (auto simp: form_subproblems_def split: sum.splits)
    from g1 have "length (nodes g1) < length (nodes g) \<and> length (edges g1) \<le> length (edges g)"
      by (auto simp: remove_node_def length_removeAll_less split: if_splits)
    moreover from gB
    have "length (nodes gB) < length (nodes g1) \<and> length (edges gB) \<le> length (edges g1)"
      by (auto simp: remove_node_def length_removeAll_less split: if_splits)
    moreover from gA have "nodes gA = nodes g \<and> length (edges gA) < length (edges g)"
      by (auto simp: remove_edge_def split: if_splits intro!: length_filter_less)
    ultimately show ?thesis by simp
  qed
  show "wf (measure (\<lambda>(L :: 'v library, g, match :: 'v edge list,
                       all_matches :: 'v edge list list, add_e :: 'v edge list option).
                   length (nodes g) + length (edges g)))"
    by simp
  show "((L, gA, mA, all_matches @ [new_match], aA), (L, g, match, all_matches, add_e))
          \<in> measure (\<lambda>(L, g, match, all_matches, add_e). length (nodes g) + length (edges g))"
    if "iter_step L g match add_e = Inr x" "x = Some y" "(new_match, z) = y" "(cA, cB) = z"
       "(gA, rA) = cA" "(mA, aA) = rA"
    for L :: "'v library" and g match all_matches add_e x y new_match z cA cB gA rA mA aA
  proof -
    obtain gB mB aB where "cB = (gB, mB, aB)" by (metis prod_cases3)
    with that have "iter_step L g match add_e = Inr (Some (new_match, (gA, mA, aA), (gB, mB, aB)))"
      by auto
    from smaller [OF this] show ?thesis by simp
  qed
  show "((L, gB, mB, all_matches', aB), (L, g, match, all_matches, add_e))
          \<in> measure (\<lambda>(L, g, match, all_matches, add_e). length (nodes g) + length (edges g))"
    if "iter_step L g match add_e = Inr x" "x = Some y" "(new_match, z) = y" "(cA, cB) = z"
       "(gA, rA) = cA" "(mA, aA) = rA" "(gB, rB) = cB" "(mB, aB) = rB"
    for L :: "'v library" and g match all_matches add_e x y new_match z cA cB gA rA mA aA
      gB rB mB aB all_matches'
  proof -
    from that have "iter_step L g match add_e = Inr (Some (new_match, (gA, mA, aA), (gB, mB, aB)))"
      by auto
    from smaller [OF this] show ?thesis by simp
  qed
qed

text \<open>\<open>enumMaximumMatching\<close>: the matching of the solver, re-oriented, seeds the list.\<close>

definition enumMaximumMatching :: "'v library \<Rightarrow> 'v graph \<Rightarrow> error + 'v edge list list" where
  "enumMaximumMatching L g =
     (case hopcroft_karp_matching L g of
        Inl err \<Rightarrow> Inl err
      | Inr items \<Rightarrow>
          (let match = filter (\<lambda>kv. bipartite g (fst kv) = 0) items
           in enumMaximumMatchingIter L g match [match] None))"

text \<open>
  The depth of the recursion under a call: 0 for a call that makes no self-call, and one
  more than the deeper of the self-calls made otherwise. The second self-call is made
  only when the first has returned a list.
\<close>

function recursion_depth ::
  "'v library \<Rightarrow> 'v graph \<Rightarrow> 'v edge list \<Rightarrow> 'v edge list list \<Rightarrow> 'v edge list option
     \<Rightarrow> nat" where
  "recursion_depth L g match all_matches add_e =
     (case iter_step L g match add_e of
        Inl err \<Rightarrow> 0
      | Inr None \<Rightarrow> 0
      | Inr (Some (new_match, (gA, mA, aA), (gB, mB, aB))) \<Rightarrow>
          Suc (max (recursion_depth L gA mA (all_matches @ [new_match]) aA)
                   (case enumMaximumMatchingIter L gA mA (all_matches @ [new_match]) aA of
                      Inl err \<Rightarrow> 0
                    | Inr all_matches' \<Rightarrow> recursion_depth L gB mB all_matches' aB)))"
  by pat_completeness auto
termination
proof (relation "measure (\<lambda>(L, g, match, all_matches, add_e).
                   length (nodes g) + length (edges g))")
  have smaller: "length (nodes gA) + length (edges gA) < length (nodes g) + length (edges g)
      \<and> length (nodes gB) + length (edges gB) < length (nodes g) + length (edges g)"
    if st: "iter_step L g match add_e = Inr (Some (new_match, (gA, mA, aA), (gB, mB, aB)))"
    for L :: "'v library" and g match add_e new_match gA mA aA gB mB aB
  proof -
    from st obtain e a where f: "form_subproblems g e add_e = Inr (gB, gA, a)"
      by (auto simp: iter_step_def path_case_def cycle_case_def Let_def
          split: if_splits option.splits list.splits sum.splits prod.splits)
    then obtain g1 where g1: "remove_node g (fst e) = Inr g1"
      and gB: "remove_node g1 (snd e) = Inr gB"
      and gA: "remove_edge g (fst e) (snd e) = Inr gA"
      by (auto simp: form_subproblems_def split: sum.splits)
    from g1 have "length (nodes g1) < length (nodes g) \<and> length (edges g1) \<le> length (edges g)"
      by (auto simp: remove_node_def length_removeAll_less split: if_splits)
    moreover from gB
    have "length (nodes gB) < length (nodes g1) \<and> length (edges gB) \<le> length (edges g1)"
      by (auto simp: remove_node_def length_removeAll_less split: if_splits)
    moreover from gA have "nodes gA = nodes g \<and> length (edges gA) < length (edges g)"
      by (auto simp: remove_edge_def split: if_splits intro!: length_filter_less)
    ultimately show ?thesis by simp
  qed
  show "wf (measure (\<lambda>(L :: 'v library, g, match :: 'v edge list,
                       all_matches :: 'v edge list list, add_e :: 'v edge list option).
                   length (nodes g) + length (edges g)))"
    by simp
  show "((L, gA, mA, all_matches @ [new_match], aA), (L, g, match, all_matches, add_e))
          \<in> measure (\<lambda>(L, g, match, all_matches, add_e). length (nodes g) + length (edges g))"
    if "iter_step L g match add_e = Inr x" "x = Some y" "(new_match, z) = y" "(cA, cB) = z"
       "(gA, rA) = cA" "(mA, aA) = rA"
    for L :: "'v library" and g match all_matches add_e x y new_match z cA cB gA rA mA aA
  proof -
    obtain gB mB aB where "cB = (gB, mB, aB)" by (metis prod_cases3)
    with that have "iter_step L g match add_e = Inr (Some (new_match, (gA, mA, aA), (gB, mB, aB)))"
      by auto
    from smaller [OF this] show ?thesis by simp
  qed
  show "((L, gB, mB, all_matches', aB), (L, g, match, all_matches, add_e))
          \<in> measure (\<lambda>(L, g, match, all_matches, add_e). length (nodes g) + length (edges g))"
    if "iter_step L g match add_e = Inr x" "x = Some y" "(new_match, z) = y" "(cA, cB) = z"
       "(gA, rA) = cA" "(mA, aA) = rA" "(gB, rB) = cB" "(mB, aB) = rB"
    for L :: "'v library" and g match all_matches add_e x y new_match z cA cB gA rA mA aA
      gB rB mB aB all_matches'
  proof -
    from that have "iter_step L g match add_e = Inr (Some (new_match, (gA, mA, aA), (gB, mB, aB)))"
      by auto
    from smaller [OF this] show ?thesis by simp
  qed
qed

section \<open>Bipartite graphs, matchings and the contracts of the library\<close>

text \<open>
  A bipartite graph as networkx holds it: no node twice, every edge between two nodes
  of the graph that lie on different sides, no edge twice (in either orientation), and
  the attribute 0 or 1 on every node.
\<close>

definition bipartite_graph :: "'v graph \<Rightarrow> bool" where
  "bipartite_graph g \<longleftrightarrow>
     distinct (nodes g) \<and>
     (\<forall>n \<in> set (nodes g). bipartite g n \<le> 1) \<and>
     (\<forall>ee \<in> set (edges g). fst ee \<in> set (nodes g) \<and> snd ee \<in> set (nodes g) \<and>
                            bipartite g (fst ee) \<noteq> bipartite g (snd ee)) \<and>
     distinct (map (\<lambda>ee. {fst ee, snd ee}) (edges g))"

text \<open>A matching as the program returns it, a list of pairs of nodes, read as a set of
  undirected edges.\<close>

definition edge_set :: "'v edge list \<Rightarrow> 'v set set" where
  "edge_set m = (\<lambda>ee. {fst ee, snd ee}) ` set m"

text \<open>A list of pairs is a matching when no node occurs in it twice.\<close>

definition is_matching_list :: "'v edge list \<Rightarrow> bool" where
  "is_matching_list m = distinct (map fst m @ map snd m)"

text \<open>The matchings of a graph by exhaustive search: the sublists of the edge list in
  which no node occurs twice; the maximum matching number; the maximum matchings.\<close>

definition matchings :: "'v graph \<Rightarrow> 'v edge list list" where
  "matchings g = filter is_matching_list (subseqs (edges g))"

definition matching_number :: "'v graph \<Rightarrow> nat" where
  "matching_number g = Max (set (map length (matchings g)))"

definition maximum_matchings :: "'v graph \<Rightarrow> 'v edge list list" where
  "maximum_matchings g = filter (\<lambda>m. length m = matching_number g) (matchings g)"

text \<open>
  The contract of \<open>hopcroft_karp_matching\<close> on a graph: it returns a dictionary that
  holds every edge of a maximum matching under both of its end points, and nothing else.
\<close>

definition hopcroft_karp_ok :: "'v library \<Rightarrow> 'v graph \<Rightarrow> bool" where
  "hopcroft_karp_ok L g \<longleftrightarrow>
     (\<exists>items. hopcroft_karp_matching L g = Inr items \<and>
        distinct (map fst items) \<and>
        (\<forall>kv \<in> set items. (snd kv, fst kv) \<in> set items \<and>
            (kv \<in> set (edges g) \<or> (snd kv, fst kv) \<in> set (edges g))) \<and>
        length items = 2 * matching_number g)"

text \<open>
  The contract of \<open>simple_cycles\<close>: every cycle returned is a list of distinct nodes
  along arcs of the digraph, the last node having an arc to the first; and the list of
  cycles is empty only for an acyclic digraph.
\<close>

definition simple_cycles_ok :: "'v library \<Rightarrow> bool" where
  "simple_cycles_ok L \<longleftrightarrow>
     (\<forall>d. (\<forall>c \<in> set (simple_cycles L d).
               c \<noteq> [] \<and> distinct c \<and> set (arcs_of (c @ [hd c])) \<subseteq> set d) \<and>
          (simple_cycles L d = [] \<longrightarrow> acyclic (set d)))"

text \<open>
  The contract of \<open>single_source_shortest_path\<close> with cutoff 2: a path of three nodes in
  the result starts at the source, follows two arcs and does not end at the source; and
  there is such a path whenever two arcs lead from the source to a node that is neither
  the source nor a successor of it.
\<close>

definition shortest_path_ok :: "'v library \<Rightarrow> bool" where
  "shortest_path_ok L \<longleftrightarrow>
     (\<forall>d s.
        (\<forall>kv \<in> set (single_source_shortest_path L d s 2).
           length (snd kv) = 3 \<longrightarrow>
             (\<exists>w x. snd kv = [s, w, x] \<and> (s, w) \<in> set d \<and> (w, x) \<in> set d \<and> x \<noteq> s)) \<and>
        (\<forall>w x. (s, w) \<in> set d \<and> (w, x) \<in> set d \<and> x \<noteq> s \<and> (s, x) \<notin> set d \<longrightarrow>
           (\<exists>kv \<in> set (single_source_shortest_path L d s 2). length (snd kv) = 3)))"

text \<open>The contract of \<open>list(s)\<close> for a set \<open>s\<close>: the elements of the set, in some order.\<close>

definition set_listing_ok :: "'v library \<Rightarrow> bool" where
  "set_listing_ok L \<longleftrightarrow>
     (\<forall>xs. set (list_of_node_set L xs) = set xs) \<and>
     (\<forall>xs. set (list_of_edge_set L xs) = set xs)"

definition library_ok :: "'v library \<Rightarrow> bool" where
  "library_ok L \<longleftrightarrow> simple_cycles_ok L \<and> shortest_path_ok L \<and> set_listing_ok L"

section \<open>Matchings as sets of oriented edges\<close>

text \<open>
  For the proofs an edge of a bipartite graph is the pair (node on side 0, node on the
  other side), whatever the order in which the graph or a matching lists its end
  points. A matching in a set \<open>E\<close> of such pairs is a subset in which no first and no
  second component occurs twice; it is maximum when no matching in \<open>E\<close> has more
  elements.
\<close>

definition oriented :: "'v graph \<Rightarrow> 'v edge \<Rightarrow> 'v edge" where
  "oriented g ee = (if bipartite g (fst ee) = 0 then ee else (snd ee, fst ee))"

definition oedges :: "'v graph \<Rightarrow> 'v edge set" where
  "oedges g = oriented g ` set (edges g)"

definition oset :: "'v graph \<Rightarrow> 'v edge list \<Rightarrow> 'v edge set" where
  "oset g m = oriented g ` set m"

definition matching_in :: "'v edge set \<Rightarrow> 'v edge set \<Rightarrow> bool" where
  "matching_in E M \<longleftrightarrow> M \<subseteq> E \<and> inj_on fst M \<and> inj_on snd M"

definition max_matching_in :: "'v edge set \<Rightarrow> 'v edge set \<Rightarrow> bool" where
  "max_matching_in E M \<longleftrightarrow> matching_in E M \<and> (\<forall>N. matching_in E N \<longrightarrow> card N \<le> card M)"

text \<open>The edges that remain when both end points of \<open>e\<close> are removed.\<close>

definition without_endpoints :: "'v edge set \<Rightarrow> 'v edge \<Rightarrow> 'v edge set" where
  "without_endpoints E e = {x \<in> E. fst x \<noteq> fst e \<and> snd x \<noteq> snd e}"

text \<open>The arcs of the digraph of \<open>formDirected\<close>: an edge of the matching as it is, any
  other edge reversed.\<close>

definition exchange_arcs :: "'v edge set \<Rightarrow> 'v edge set \<Rightarrow> 'v edge set" where
  "exchange_arcs E M = M \<union> {(r, l). (l, r) \<in> E - M}"

text \<open>The matching after the exchange along a set \<open>C\<close> of arcs: the edges of \<open>M\<close> on \<open>C\<close>
  leave, the other edges on \<open>C\<close> enter.\<close>

definition toggle :: "'v edge set \<Rightarrow> 'v edge set \<Rightarrow> 'v edge set \<Rightarrow> 'v edge set" where
  "toggle E M C = (M - C) \<union> {(l, r). (r, l) \<in> C \<and> (l, r) \<in> E \<and> (l, r) \<notin> M}"

text \<open>The edges of \<open>add_e\<close>, none for \<open>None\<close>.\<close>

definition forced :: "'v edge list option \<Rightarrow> 'v edge list" where
  "forced add_e = (case add_e of None \<Rightarrow> [] | Some a \<Rightarrow> a)"

text \<open>
  What holds of the arguments of every call of \<open>enumMaximumMatchingIter\<close> that
  \<open>enumMaximumMatching\<close> causes: the graph is bipartite; the pairs of \<open>match\<close> that are
  edges of the graph form a maximum matching of it; every other pair of \<open>match\<close>, and
  every pair of \<open>add_e\<close>, lies outside the graph with both of its end points.
\<close>

definition call_ok :: "'v graph \<Rightarrow> 'v edge list \<Rightarrow> 'v edge list option \<Rightarrow> bool" where
  "call_ok g match add_e \<longleftrightarrow>
     bipartite_graph g \<and>
     max_matching_in (oedges g) (set match \<inter> oedges g) \<and>
     (\<forall>ee \<in> set match. ee \<in> oedges g \<or>
         (fst ee \<notin> set (nodes g) \<and> snd ee \<notin> set (nodes g))) \<and>
     (\<forall>ee \<in> set (forced add_e). fst ee \<notin> set (nodes g) \<and> snd ee \<notin> set (nodes g))"

section \<open>A reference instance of the library\<close>

text \<open>
  Executable stand-ins for the library calls, used to run the model on concrete graphs:
  a maximum matching found by exhaustive search, the simple cycles found by depth-first
  search, breadth-first shortest paths up to the cutoff, and a set listed in the order
  of first occurrence.
\<close>

definition longest_such :: "('a list \<Rightarrow> bool) \<Rightarrow> 'a list list \<Rightarrow> 'a list" where
  "longest_such P xss =
     foldr (\<lambda>m best. if P m \<and> length best < length m then m else best) xss []"

definition ref_hopcroft_karp :: "'v graph \<Rightarrow> error + ('v \<times> 'v) list" where
  "ref_hopcroft_karp g =
     Inr (concat (map (\<lambda>ee. [(fst ee, snd ee), (snd ee, fst ee)])
            (longest_such is_matching_list (subseqs (edges g)))))"

definition succs :: "'v edge list \<Rightarrow> 'v \<Rightarrow> 'v list" where
  "succs d v = map snd (filter (\<lambda>ee. fst ee = v) d)"

fun cycle_search :: "'v edge list \<Rightarrow> nat \<Rightarrow> 'v list \<Rightarrow> 'v list list" where
  "cycle_search d 0 p = []"
| "cycle_search d (Suc n) p =
     concat (map (\<lambda>w. if w = hd p then [p]
                         else if w \<in> set p then []
                         else cycle_search d n (p @ [w]))
               (succs d (last p)))"

definition ref_simple_cycles :: "'v edge list \<Rightarrow> 'v list list" where
  "ref_simple_cycles d =
     concat (map (\<lambda>v. cycle_search d (length d) [v]) (remdups (map fst d)))"

definition first_by_key :: "('k \<times> 'a) list \<Rightarrow> ('k \<times> 'a) list" where
  "first_by_key kvs = map (\<lambda>k. (k, the (map_of kvs k))) (remdups (map fst kvs))"

fun bfs_paths ::
  "'v edge list \<Rightarrow> nat \<Rightarrow> ('v \<times> 'v list) list \<Rightarrow> ('v \<times> 'v list) list
     \<Rightarrow> ('v \<times> 'v list) list" where
  "bfs_paths d 0 frontier paths = paths"
| "bfs_paths d (Suc c) frontier paths =
     (let new = first_by_key
            (concat (map (\<lambda>vp. map (\<lambda>w. (w, snd vp @ [w]))
                                  (filter (\<lambda>w. w \<notin> set (map fst paths)) (succs d (fst vp))))
                       frontier))
      in bfs_paths d c new (paths @ new))"

definition ref_single_source_shortest_path ::
  "'v edge list \<Rightarrow> 'v \<Rightarrow> nat \<Rightarrow> ('v \<times> 'v list) list" where
  "ref_single_source_shortest_path d s cutoff = bfs_paths d cutoff [(s, [s])] [(s, [s])]"

definition ref_library :: "'v library" where
  "ref_library =
     \<lparr> hopcroft_karp_matching = ref_hopcroft_karp,
       simple_cycles = ref_simple_cycles,
       single_source_shortest_path = ref_single_source_shortest_path,
       list_of_node_set = remdups,
       list_of_edge_set = remdups \<rparr>"

text \<open>The complete bipartite graph K(2,2): nodes 0 and 1 on side 0, nodes 2 and 3 on
  side 1.\<close>

definition K22 :: "nat graph" where
  "K22 = \<lparr> nodes = [0, 1, 2, 3], bipartite = (\<lambda>v. if v < 2 then 0 else 1),
           edges = [(0, 2), (0, 3), (1, 2), (1, 3)] \<rparr>"

text \<open>Two stars: node 0 joined to 2 and 3, node 1 joined to 4 and 5; nodes 0 and 1 on
  side 0.\<close>

definition two_stars :: "nat graph" where
  "two_stars = \<lparr> nodes = [0, 1, 2, 3, 4, 5], bipartite = (\<lambda>v. if v < 2 then 0 else 1),
                 edges = [(0, 2), (0, 3), (1, 4), (1, 5)] \<rparr>"

text \<open>One edge between two nodes that both carry the attribute 0.\<close>

definition same_side_edge :: "nat graph" where
  "same_side_edge = \<lparr> nodes = [0, 1], bipartite = (\<lambda>v. 0), edges = [(0, 1)] \<rparr>"

text \<open>The graph without nodes.\<close>

definition empty_graph :: "nat graph" where
  "empty_graph = \<lparr> nodes = [], bipartite = (\<lambda>v. 0), edges = [] \<rparr>"

section \<open>Basic facts about the recursion\<close>

declare enumMaximumMatchingIter.simps [simp del]
declare recursion_depth.simps [simp del]

lemma remove_node_smaller:
  "remove_node g n = Inr g' \<Longrightarrow>
     length (nodes g') < length (nodes g) \<and> length (edges g') \<le> length (edges g)"
  by (auto simp: remove_node_def length_removeAll_less split: if_splits)

lemma remove_edge_smaller:
  "remove_edge g u v = Inr g' \<Longrightarrow>
     nodes g' = nodes g \<and> length (edges g') < length (edges g)"
  by (auto simp: remove_edge_def split: if_splits intro!: length_filter_less)

lemma remove_node_edges_smaller:
  assumes "remove_node g n = Inr g'" and "ee \<in> set (edges g)" and "fst ee = n \<or> snd ee = n"
  shows "length (edges g') < length (edges g)"
  using assms by (auto simp: remove_node_def split: if_splits intro!: length_filter_less)

lemma form_subproblems_parts:
  assumes "form_subproblems g e add_e = Inr (g_plus, g_minus, a)"
  shows "\<exists>g1. remove_node g (fst e) = Inr g1 \<and> remove_node g1 (snd e) = Inr g_plus"
    and "remove_edge g (fst e) (snd e) = Inr g_minus"
    and "a = e # (case add_e of None \<Rightarrow> [] | Some a \<Rightarrow> a)"
  using assms by (auto simp: form_subproblems_def split: sum.splits)

lemma form_subproblems_smaller:
  assumes "form_subproblems g e add_e = Inr (g_plus, g_minus, a)"
  shows "length (nodes g_plus) < length (nodes g)"
    and "length (edges g_plus) < length (edges g)"
    and "nodes g_minus = nodes g"
    and "length (edges g_minus) < length (edges g)"
proof -
  from form_subproblems_parts [OF assms] obtain g1 where
    g1: "remove_node g (fst e) = Inr g1" and gp: "remove_node g1 (snd e) = Inr g_plus"
    and gm: "remove_edge g (fst e) (snd e) = Inr g_minus" by blast
  from gm have "(fst e, snd e) \<in> set (edges g) \<or> (snd e, fst e) \<in> set (edges g)"
    by (auto simp: remove_edge_def split: if_splits)
  then obtain ee where "ee \<in> set (edges g)" "fst ee = fst e \<or> snd ee = fst e"
    by (metis fst_conv snd_conv)
  from remove_node_edges_smaller [OF g1 this] remove_node_smaller [OF g1]
    remove_node_smaller [OF gp] remove_edge_smaller [OF gm]
  show "length (nodes g_plus) < length (nodes g)"
    and "length (edges g_plus) < length (edges g)"
    and "nodes g_minus = nodes g"
    and "length (edges g_minus) < length (edges g)"
    by simp_all
qed

lemma iter_step_subproblems:
  assumes "iter_step L g match add_e = Inr (Some (new_match, (gA, mA, aA), (gB, mB, aB)))"
  shows "\<exists>e a. form_subproblems g e add_e = Inr (gB, gA, a)"
  using assms
  by (auto simp: iter_step_def path_case_def cycle_case_def Let_def
      split: if_splits option.splits list.splits sum.splits prod.splits)

lemma enumIter_rel_smaller:
  assumes "enumMaximumMatchingIter_rel y x"
  shows "length (edges (fst (snd y))) < length (edges (fst (snd x)))"
  using assms
proof (cases rule: enumMaximumMatchingIter_rel.cases)
  case (1 L g match all_matches add_e b x2 x y xa ya xb yb xaa yc xab yd xac ye)
  then have "iter_step L g match add_e = Inr (Some (x, (xb, xaa, yc), (xab, xac, ye)))"
    by auto
  from iter_step_subproblems [OF this] form_subproblems_smaller(4) 1 show ?thesis by fastforce
next
  case (2 L g match all_matches add_e b x2 x y xa ya xb yb xaa yc xab yd xac ye ba)
  then have "iter_step L g match add_e = Inr (Some (x, (xb, xaa, yc), (xab, xac, ye)))"
    by auto
  from iter_step_subproblems [OF this] form_subproblems_smaller(2) 2 show ?thesis by fastforce
qed

text \<open>Every argument is in the accessible part of the call relation of the recursion.\<close>

lemma enumIter_dom: "enumMaximumMatchingIter_dom x"
proof (induction "length (edges (fst (snd x)))" arbitrary: x rule: less_induct)
  case less
  show ?case by (rule accpI) (use less enumIter_rel_smaller in blast)
qed

lemma recursion_depth_branch:
  "iter_step L g match add_e = Inr (Some (nm, (gA, mA, aA), (gB, mB, aB))) \<Longrightarrow>
     recursion_depth L g match am add_e =
       Suc (max (recursion_depth L gA mA (am @ [nm]) aA)
                (case enumMaximumMatchingIter L gA mA (am @ [nm]) aA of
                   Inl err \<Rightarrow> 0
                 | Inr am' \<Rightarrow> recursion_depth L gB mB am' aB))"
  by (simp add: recursion_depth.simps [of L g])


lemma enumIter_induct [case_names step]:
  assumes "\<And>L g match am add_e.
     (\<And>nm gA mA aA gB mB aB.
        iter_step L g match add_e = Inr (Some (nm, (gA, mA, aA), (gB, mB, aB)))
        \<Longrightarrow> P L gA mA (am @ [nm]) aA) \<Longrightarrow>
     (\<And>nm gA mA aA gB mB aB am'.
        iter_step L g match add_e = Inr (Some (nm, (gA, mA, aA), (gB, mB, aB)))
        \<Longrightarrow> enumMaximumMatchingIter L gA mA (am @ [nm]) aA = Inr am'
        \<Longrightarrow> P L gB mB am' aB)
     \<Longrightarrow> P L g match am add_e"
  shows "P L g match am add_e"
proof (induction L g match am add_e rule: enumMaximumMatchingIter.induct)
  case (1 L g match all_matches add_e)
  show ?case
  proof (rule assms)
    fix nm gA mA aA gB mB aB
    assume s: "iter_step L g match add_e = Inr (Some (nm, (gA, mA, aA), (gB, mB, aB)))"
    show "P L gA mA (all_matches @ [nm]) aA"
      by (rule "1.IH"(1) [OF s refl refl refl refl refl refl refl])
  next
    fix nm gA mA aA gB mB aB am'
    assume s: "iter_step L g match add_e = Inr (Some (nm, (gA, mA, aA), (gB, mB, aB)))"
      and a: "enumMaximumMatchingIter L gA mA (all_matches @ [nm]) aA = Inr am'"
    show "P L gB mB am' aB"
      by (rule "1.IH"(2) [OF s refl refl refl refl refl refl refl a])
  qed
qed

lemma enumIter_leaf:
  "iter_step L g match add_e = Inr None \<Longrightarrow>
     enumMaximumMatchingIter L g match am add_e = Inr am"
  by (simp add: enumMaximumMatchingIter.simps)

lemma enumIter_error:
  "iter_step L g match add_e = Inl err \<Longrightarrow>
     enumMaximumMatchingIter L g match am add_e = Inl err"
  by (simp add: enumMaximumMatchingIter.simps)

lemma enumIter_branch:
  "iter_step L g match add_e = Inr (Some (nm, (gA, mA, aA), (gB, mB, aB))) \<Longrightarrow>
     enumMaximumMatchingIter L g match am add_e =
       (case enumMaximumMatchingIter L gA mA (am @ [nm]) aA of
          Inl err \<Rightarrow> Inl err
        | Inr am' \<Rightarrow> enumMaximumMatchingIter L gB mB am' aB)"
  by (simp add: enumMaximumMatchingIter.simps [of L g])

lemma step_cases [case_names error leaf branch]:
  obtains err where "iter_step L g match add_e = Inl err"
  | "iter_step L g match add_e = Inr None"
  | nm gA mA aA gB mB aB where
      "iter_step L g match add_e = Inr (Some (nm, (gA, mA, aA), (gB, mB, aB)))"
proof (cases "iter_step L g match add_e")
  case (Inl a) then show ?thesis using that by blast
next
  case (Inr b)
  then show ?thesis
  proof (cases b)
    case None with Inr show ?thesis using that by blast
  next
    case (Some t)
    obtain nm gA mA aA gB mB aB where "t = (nm, (gA, mA, aA), (gB, mB, aB))"
      by (metis prod_cases3)
    with Inr Some show ?thesis using that by blast
  qed
qed

lemma recursion_depth_bound:
  "recursion_depth L g match all_matches add_e \<le> length (edges g)"
proof (induction L g match all_matches add_e rule: enumIter_induct)
  case (step L g match am add_e)
  show ?case
  proof (cases L g match add_e rule: step_cases)
    case (error err)
    then show ?thesis by (simp add: recursion_depth.simps)
  next
    case leaf
    then show ?thesis by (simp add: recursion_depth.simps)
  next
    case (branch nm gA mA aA gB mB aB)
    from iter_step_subproblems [OF branch] obtain e a
      where f: "form_subproblems g e add_e = Inr (gB, gA, a)" by blast
    note sm = form_subproblems_smaller [OF f]
    have A: "recursion_depth L gA mA (am @ [nm]) aA < length (edges g)"
      using step.IH(1) [OF branch] sm(4) by simp
    have B: "(case enumMaximumMatchingIter L gA mA (am @ [nm]) aA of
                Inl err \<Rightarrow> 0 | Inr am' \<Rightarrow> recursion_depth L gB mB am' aB)
             < length (edges g)"
    proof (cases "enumMaximumMatchingIter L gA mA (am @ [nm]) aA")
      case (Inl err)
      from sm(4) have "0 < length (edges g)" by linarith
      with Inl show ?thesis by simp
    next
      case (Inr am')
      with step.IH(2) [OF branch Inr] sm(2) show ?thesis by simp
    qed
    from A B show ?thesis by (simp add: recursion_depth_branch [OF branch])
  qed
qed

section \<open>The reference library meets the contracts\<close>

lemma arcs_of_simps [simp]:
  "arcs_of [] = []" "arcs_of [v] = []" "arcs_of (a # b # p) = (a, b) # arcs_of (b # p)"
  by (simp_all add: arcs_of_def)

lemma arcs_of_snoc: "p \<noteq> [] \<Longrightarrow> arcs_of (p @ [w]) = arcs_of p @ [(last p, w)]"
  by (induction p rule: induct_list012) auto

lemma arcs_of_append:
  "xs \<noteq> [] \<Longrightarrow> ys \<noteq> [] \<Longrightarrow> arcs_of (xs @ ys) = arcs_of xs @ [(last xs, hd ys)] @ arcs_of ys"
  by (induction xs rule: induct_list012) (auto simp: neq_Nil_conv)

lemma arcs_of_append_subset:
  "set (arcs_of xs) \<subseteq> set (arcs_of (xs @ ys))" "set (arcs_of ys) \<subseteq> set (arcs_of (xs @ ys))"
proof -
  consider "xs = []" | "ys = []" | "xs \<noteq> []" "ys \<noteq> []" by blast
  then show "set (arcs_of xs) \<subseteq> set (arcs_of (xs @ ys))"
    by cases (auto simp: arcs_of_append)
  consider "xs = []" | "ys = []" | "xs \<noteq> []" "ys \<noteq> []" by blast
  then show "set (arcs_of ys) \<subseteq> set (arcs_of (xs @ ys))"
    by cases (auto simp: arcs_of_append)
qed

lemma length_arcs_of [simp]: "length (arcs_of p) = length p - 1"
  by (simp add: arcs_of_def)

lemma arcs_of_nth:
  "Suc i < length p \<Longrightarrow> arcs_of p ! i = (p ! i, p ! Suc i)"
  by (simp add: arcs_of_def nth_butlast nth_tl)

lemma map_fst_arcs_of [simp]: "map fst (arcs_of p) = butlast p"
  by (simp add: arcs_of_def)

lemma map_snd_arcs_of [simp]: "map snd (arcs_of p) = tl p"
  by (simp add: arcs_of_def)

subsection \<open>Listing a set\<close>

lemma ref_set_listing_ok: "set_listing_ok ref_library"
  by (simp add: set_listing_ok_def ref_library_def)

subsection \<open>The search for cycles\<close>

lemma cycle_search_sound:
  "c \<in> set (cycle_search d n p) \<Longrightarrow> p \<noteq> [] \<Longrightarrow> distinct p \<Longrightarrow> set (arcs_of p) \<subseteq> set d
     \<Longrightarrow> c \<noteq> [] \<and> distinct c \<and> set (arcs_of (c @ [hd c])) \<subseteq> set d"
proof (induction n arbitrary: p)
  case 0
  then show ?case by simp
next
  case (Suc n)
  from Suc.prems(1) obtain w where w: "w \<in> set (succs d (last p))"
    and c: "c \<in> set (if w = hd p then [p] else if w \<in> set p then []
                      else cycle_search d n (p @ [w]))"
    unfolding cycle_search.simps set_concat set_map by blast
  from w have arc: "(last p, w) \<in> set d" by (auto simp: succs_def)
  show ?case
  proof (cases "w = hd p")
    case True
    with c have "c = p" by simp
    with Suc.prems arc True show ?thesis by (simp add: arcs_of_snoc)
  next
    case False
    with c have nin: "w \<notin> set p" and c': "c \<in> set (cycle_search d n (p @ [w]))"
      by (auto split: if_splits)
    show ?thesis
      by (rule Suc.IH [OF c']) (use Suc.prems nin arc in \<open>auto simp: arcs_of_snoc\<close>)
  qed
qed

lemma cycle_search_complete:
  assumes c: "distinct c" "set (arcs_of (c @ [hd c])) \<subseteq> set d"
  shows "0 < k \<Longrightarrow> k \<le> length c \<Longrightarrow> length c - k < n \<Longrightarrow> cycle_search d n (take k c) \<noteq> []"
proof (induction n arbitrary: k)
  case 0
  then show ?case by simp
next
  case (Suc n)
  let ?p = "take k c"
  from Suc.prems have pne: "?p \<noteq> []" by auto
  have hdp: "hd ?p = hd c" using Suc.prems by (cases c) auto
  have "last ?p = ?p ! (length ?p - 1)" by (rule last_conv_nth [OF pne])
  then have lastp: "last ?p = c ! (k - 1)" using Suc.prems by (simp add: min_def)
  from Suc.prems have cne: "c \<noteq> []" by auto
  have arcs: "arcs_of (c @ [hd c]) = arcs_of c @ [(last c, hd c)]"
    by (simp add: arcs_of_snoc cne)
  show ?case
  proof (cases "k = length c")
    case True
    then have "last ?p = last c" by (simp add: last_conv_nth cne)
    with c(2) arcs have "hd c \<in> set (succs d (last ?p))"
      by (force simp: succs_def)
    then show ?thesis using hdp
      by (auto simp del: hd_take) 
  next
    case False
    with Suc.prems have k: "k < length c" by simp
    let ?w = "c ! k"
    have "arcs_of c ! (k - 1) = (c ! (k - 1), ?w)"
      using arcs_of_nth [of "k - 1" c] k Suc.prems by simp
    moreover have "k - 1 < length (arcs_of c)" using k Suc.prems by simp
    ultimately have "(c ! (k - 1), ?w) \<in> set (arcs_of c)"
      by (metis nth_mem)
    with c(2) arcs lastp have w: "?w \<in> set (succs d (last ?p))"
      by (force simp: succs_def)
    have "c ! k \<noteq> c ! 0"
      using c(1) k Suc.prems cne by (simp add: nth_eq_iff_index_eq)
    then have nhd: "?w \<noteq> hd ?p"
      using hdp hd_conv_nth [OF cne] by simp
    have nin: "?w \<notin> set ?p"
      using c(1) k by (auto simp: in_set_conv_nth nth_eq_iff_index_eq)
    have "cycle_search d n (take (Suc k) c) \<noteq> []"
      by (rule Suc.IH) (use k Suc.prems in auto)
    then have "cycle_search d n (?p @ [?w]) \<noteq> []"
      using k by (simp add: take_Suc_conv_app_nth)
    with w nhd nin show ?thesis by (auto simp del: hd_take)
  qed
qed

lemma trancl_walk:
  "(a, b) \<in> R\<^sup>+ \<Longrightarrow> \<exists>p. p \<noteq> [] \<and> hd p = a \<and> set (arcs_of (p @ [b])) \<subseteq> R"
proof (induction rule: trancl_induct)
  case (base y)
  show ?case by (rule exI [of _ "[a]"]) (use base in simp)
next
  case (step y z)
  then obtain p where p: "p \<noteq> []" "hd p = a" "set (arcs_of (p @ [y])) \<subseteq> R" by blast
  have "arcs_of ((p @ [y]) @ [z]) = arcs_of (p @ [y]) @ [(y, z)]"
    by (subst arcs_of_snoc) auto
  with p step.hyps have "set (arcs_of ((p @ [y]) @ [z])) \<subseteq> R" by auto
  with p show ?case
    by (intro exI [of _ "p @ [y]"]) auto
qed

lemma closed_walk_simple:
  assumes "p \<noteq> []" "set (arcs_of (p @ [hd p])) \<subseteq> R"
  shows "\<exists>c. c \<noteq> [] \<and> distinct c \<and> set (arcs_of (c @ [hd c])) \<subseteq> R"
  using assms
proof (induction "length p" arbitrary: p rule: less_induct)
  case less
  show ?case
  proof (cases "distinct p")
    case True
    with less.prems show ?thesis by blast
  next
    case False
    then obtain xs ys zs x where dec: "p = xs @ [x] @ ys @ [x] @ zs"
      using not_distinct_decomp by blast
    let ?q = "x # ys"
    have "set (arcs_of (?q @ [hd ?q])) \<subseteq> set (arcs_of (p @ [hd p]))"
    proof -
      have "p @ [hd p] = xs @ ((?q @ [hd ?q]) @ (zs @ [hd p]))" by (simp add: dec)
      moreover have "set (arcs_of (?q @ [hd ?q]))
          \<subseteq> set (arcs_of ((?q @ [hd ?q]) @ (zs @ [hd p])))"
        by (rule arcs_of_append_subset(1))
      moreover have "set (arcs_of ((?q @ [hd ?q]) @ (zs @ [hd p])))
          \<subseteq> set (arcs_of (xs @ ((?q @ [hd ?q]) @ (zs @ [hd p]))))"
        by (rule arcs_of_append_subset(2))
      ultimately show ?thesis by simp
    qed
    with less.prems have "set (arcs_of (?q @ [hd ?q])) \<subseteq> R" by blast
    moreover have "length ?q < length p" by (simp add: dec)
    ultimately show ?thesis using less.hyps [of ?q] by blast
  qed
qed

lemma not_acyclic_simple_cycle:
  assumes "\<not> acyclic R"
  shows "\<exists>c. c \<noteq> [] \<and> distinct c \<and> set (arcs_of (c @ [hd c])) \<subseteq> R"
proof -
  from assms obtain v where "(v, v) \<in> R\<^sup>+" by (auto simp: acyclic_def)
  from trancl_walk [OF this] obtain p where "p \<noteq> []" "hd p = v" "set (arcs_of (p @ [v])) \<subseteq> R"
    by blast
  then show ?thesis using closed_walk_simple [of p R] by auto
qed

lemma ref_simple_cycles_ok: "simple_cycles_ok (ref_library :: 'v library)"
proof -
  have sound: "c \<noteq> [] \<and> distinct c \<and> set (arcs_of (c @ [hd c])) \<subseteq> set d"
    if "c \<in> set (ref_simple_cycles d)" for c and d :: "'v edge list"
  proof -
    from that obtain v where "c \<in> set (cycle_search d (length d) [v])"
      by (auto simp: ref_simple_cycles_def)
    from cycle_search_sound [OF this] show ?thesis by simp
  qed
  have complete: "acyclic (set d)" if emp: "ref_simple_cycles d = []" for d :: "'v edge list"
  proof (rule ccontr)
    assume "\<not> acyclic (set d)"
    from not_acyclic_simple_cycle [OF this] obtain c where
      c: "c \<noteq> []" "distinct c" "set (arcs_of (c @ [hd c])) \<subseteq> set d" by blast
    have arcs: "arcs_of (c @ [hd c]) = arcs_of c @ [(last c, hd c)]"
      by (simp add: arcs_of_snoc c(1))
    have "map fst (arcs_of (c @ [hd c])) = c"
      by (simp add: c(1) butlast_append)
    with c(2) have "distinct (arcs_of (c @ [hd c]))" by (metis distinct_map)
    with c(3) have "length (arcs_of (c @ [hd c])) \<le> card (set d)"
      by (metis List.finite_set card_mono distinct_card)
    then have len: "length c \<le> length d"
      using card_length [of d] by simp
    have "hd c \<in> fst ` set (arcs_of (c @ [hd c]))"
      using \<open>map fst (arcs_of (c @ [hd c])) = c\<close> c(1)
      by (metis hd_in_set list.set_map)
    with c(3) obtain ee where ee: "ee \<in> set d" "fst ee = hd c" by auto
    from c(1) have "0 < length c" by simp
    with len have "length c - 1 < length d" by linarith
    with \<open>0 < length c\<close> have "cycle_search d (length d) (take 1 c) \<noteq> []"
      by (intro cycle_search_complete [OF c(2,3)]) (simp_all add: Suc_le_eq)
    moreover have "take 1 c = [hd c]" using c(1) by (cases c) auto
    ultimately have "cycle_search d (length d) [hd c] \<noteq> []" by simp
    with ee have "ref_simple_cycles d \<noteq> []"
      unfolding ref_simple_cycles_def by (simp add: image_iff) metis
    with emp show False by simp
  qed
  show ?thesis
    unfolding simple_cycles_ok_def
    using sound complete by (auto simp: ref_library_def)
qed


subsection \<open>Shortest paths up to the cutoff\<close>

lemma first_by_key_subset: "set (first_by_key kvs) \<subseteq> set kvs"
proof
  fix kv assume "kv \<in> set (first_by_key kvs)"
  then obtain k where k: "k \<in> fst ` set kvs" and kv: "kv = (k, the (map_of kvs k))"
    by (auto simp: first_by_key_def)
  from k obtain v where "map_of kvs k = Some v"
    by (metis domD dom_map_of_conv_image_fst)
  with kv show "kv \<in> set kvs" by (auto dest: map_of_SomeD)
qed

lemma first_by_key_keys: "fst ` set (first_by_key kvs) = fst ` set kvs"
  by (force simp: first_by_key_def)

lemma bfs_paths_2:
  "bfs_paths d 2 [(s, [s])] [(s, [s])] =
     (let new1 = first_by_key (map (\<lambda>w. (w, [s, w])) (filter (\<lambda>w. w \<noteq> s) (succs d s)));
          new2 = first_by_key
            (concat (map (\<lambda>vp. map (\<lambda>w. (w, snd vp @ [w]))
                      (filter (\<lambda>w. w \<notin> set (map fst ([(s, [s])] @ new1))) (succs d (fst vp))))
                       new1))
      in ([(s, [s])] @ new1) @ new2)"
  by (simp add: numeral_2_eq_2 Let_def)

lemma ref_shortest_path_ok: "shortest_path_ok (ref_library :: 'v library)"
proof -
  have main: "(\<forall>kv \<in> set (ref_single_source_shortest_path d s 2).
           length (snd kv) = 3 \<longrightarrow>
             (\<exists>w x. snd kv = [s, w, x] \<and> (s, w) \<in> set d \<and> (w, x) \<in> set d \<and> x \<noteq> s)) \<and>
        (\<forall>w x. (s, w) \<in> set d \<and> (w, x) \<in> set d \<and> x \<noteq> s \<and> (s, x) \<notin> set d \<longrightarrow>
           (\<exists>kv \<in> set (ref_single_source_shortest_path d s 2). length (snd kv) = 3))"
    for d :: "'v edge list" and s
  proof -
    define c1 where "c1 = map (\<lambda>w. (w, [s, w])) (filter (\<lambda>w. w \<noteq> s) (succs d s))"
    define new1 where "new1 = first_by_key c1"
    define c2 where "c2 = concat (map (\<lambda>vp. map (\<lambda>w. (w, snd vp @ [w]))
                      (filter (\<lambda>w. w \<notin> set (map fst ([(s, [s])] @ new1))) (succs d (fst vp))))
                       new1)"
    define new2 where "new2 = first_by_key c2"
    have res: "ref_single_source_shortest_path d s 2 = ([(s, [s])] @ new1) @ new2"
      by (simp add: ref_single_source_shortest_path_def bfs_paths_2 Let_def
          new2_def c2_def new1_def c1_def)
    have n1: "kv \<in> set new1 \<Longrightarrow> snd kv = [s, fst kv] \<and> (s, fst kv) \<in> set d" for kv
      using first_by_key_subset [of c1] by (auto simp: new1_def c1_def succs_def)
    have n2: "\<exists>w x. snd kv = [s, w, x] \<and> (s, w) \<in> set d \<and> (w, x) \<in> set d \<and> x \<noteq> s"
      if "kv \<in> set new2" for kv
    proof -
      from that first_by_key_subset [of c2] have "kv \<in> set c2" by (auto simp: new2_def)
      then obtain vp where vp: "vp \<in> set new1" and x: "fst kv \<in> set (succs d (fst vp))"
        "fst kv \<noteq> s" "snd kv = snd vp @ [fst kv]"
        by (auto simp: c2_def)
      from n1 [OF vp] x show ?thesis by (auto simp: succs_def)
    qed
    have sound: "\<exists>w x. snd kv = [s, w, x] \<and> (s, w) \<in> set d \<and> (w, x) \<in> set d \<and> x \<noteq> s"
      if "kv \<in> set (ref_single_source_shortest_path d s 2)" "length (snd kv) = 3" for kv
    proof -
      from that(1) res consider "kv = (s, [s])" | "kv \<in> set new1" | "kv \<in> set new2" by auto
      then show ?thesis
      proof cases
        case 1 with that(2) show ?thesis by simp
      next
        case 2 with n1 that(2) show ?thesis by simp
      next
        case 3 then show ?thesis by (rule n2)
      qed
    qed
    have complete: "\<exists>kv \<in> set (ref_single_source_shortest_path d s 2). length (snd kv) = 3"
      if "(s, w) \<in> set d" "(w, x) \<in> set d" "x \<noteq> s" "(s, x) \<notin> set d" for w x
    proof -
      from that have "w \<noteq> s" by auto
      with that(1) have "w \<in> fst ` set c1" by (force simp: c1_def succs_def)
      then have "w \<in> fst ` set new1" by (simp add: new1_def first_by_key_keys)
      then obtain vp where vp: "vp \<in> set new1" "fst vp = w" by auto
      have "x \<notin> fst ` set new1"
        using n1 that(4) by auto
      with that(2,3) vp have "(x, snd vp @ [x]) \<in> set c2"
        by (force simp: c2_def succs_def)
      then have "x \<in> fst ` set c2" by force
      then have "x \<in> fst ` set new2"
        by (simp add: new2_def first_by_key_keys)
      then obtain kv where kv: "kv \<in> set new2" by auto
      from n2 [OF kv] have "length (snd kv) = 3" by auto
      with kv res show ?thesis by auto
    qed
    from sound complete show ?thesis by blast
  qed
  show ?thesis
    unfolding shortest_path_ok_def using main by (simp add: ref_library_def)
qed

subsection \<open>The maximum matching by exhaustive search\<close>

lemma longest_such:
  assumes "P []"
  shows "P (longest_such P xss)"
    and "longest_such P xss = [] \<or> longest_such P xss \<in> set xss"
    and "m \<in> set xss \<Longrightarrow> P m \<Longrightarrow> length m \<le> length (longest_such P xss)"
  using assms by (induction xss) (auto simp: longest_such_def)

lemma Nil_in_subseqs_list: "[] \<in> set (subseqs xs)"
  by (induction xs) (auto simp: Let_def)

lemma matching_number_longest:
  "matching_number g = length (longest_such is_matching_list (subseqs (edges g)))"
proof -
  let ?r = "longest_such is_matching_list (subseqs (edges g))"
  have P0: "is_matching_list ([] :: 'a edge list)" by (simp add: is_matching_list_def)
  have "[] \<in> set (subseqs (edges g))" by (rule Nil_in_subseqs_list)
  with longest_such(1) [of is_matching_list "subseqs (edges g)", OF P0]
    longest_such(2) [of is_matching_list "subseqs (edges g)", OF P0]
  have "?r \<in> set (matchings g)"
    by (auto simp: matchings_def)
  moreover have "\<forall>m \<in> set (matchings g). length m \<le> length ?r"
    using longest_such(3) [of is_matching_list _ "subseqs (edges g)", OF P0]
    by (auto simp: matchings_def)
  ultimately show ?thesis
    unfolding matching_number_def by (intro Max_eqI) auto
qed

lemma ref_hopcroft_karp_ok: "hopcroft_karp_ok ref_library g"
proof -
  let ?r = "longest_such is_matching_list (subseqs (edges g))"
  let ?items = "concat (map (\<lambda>ee. [(fst ee, snd ee), (snd ee, fst ee)]) ?r)"
  have P0: "is_matching_list ([] :: 'a edge list)" by (simp add: is_matching_list_def)
  have r: "is_matching_list ?r" by (rule longest_such(1) [of is_matching_list, OF P0])
  have "set ` set (subseqs (edges g)) = Pow (set (edges g))" by (rule subseqs_powset)
  then have "m \<in> set (subseqs (edges g)) \<Longrightarrow> set m \<subseteq> set (edges g)" for m
    by blast
  then have sub: "set ?r \<subseteq> set (edges g)"
    using longest_such(2) [of is_matching_list "subseqs (edges g)", OF P0]
    by auto
  have keys: "set (map fst (concat (map (\<lambda>ee. [(fst ee, snd ee), (snd ee, fst ee)]) m)))
      = fst ` set m \<union> snd ` set m" for m :: "'a edge list"
    by (induction m) auto
  have d: "is_matching_list m \<Longrightarrow>
      distinct (map fst (concat (map (\<lambda>ee. [(fst ee, snd ee), (snd ee, fst ee)]) m)))"
    for m :: "'a edge list"
  proof (induction m)
    case Nil
    then show ?case by simp
  next
    case (Cons ee m)
    from Cons.prems have "is_matching_list m" and "fst ee \<noteq> snd ee"
      and "fst ee \<notin> fst ` set m \<union> snd ` set m"
      and "snd ee \<notin> fst ` set m \<union> snd ` set m"
      by (auto simp: is_matching_list_def)
    with Cons.IH keys [of m] show ?case by simp
  qed
  have len: "length (concat (map (\<lambda>ee. [(fst ee, snd ee), (snd ee, fst ee)]) m)) = 2 * length m"
    for m :: "'a edge list"
    by (induction m) auto
  have "hopcroft_karp_matching ref_library g = Inr ?items"
    by (simp add: ref_library_def ref_hopcroft_karp_def)
  moreover have "distinct (map fst ?items)" by (rule d [OF r])
  moreover have "\<forall>kv \<in> set ?items. (snd kv, fst kv) \<in> set ?items \<and>
            (kv \<in> set (edges g) \<or> (snd kv, fst kv) \<in> set (edges g))"
    using sub by auto
  moreover have "length ?items = 2 * matching_number g"
    by (simp only: len matching_number_longest)
  ultimately show ?thesis unfolding hopcroft_karp_ok_def by blast
qed

lemma ref_library_ok: "library_ok ref_library"
  by (simp add: library_ok_def ref_simple_cycles_ok ref_shortest_path_ok ref_set_listing_ok)


section \<open>The shape of a step\<close>

lemma path_case_branch:
  assumes "path_case L g match add_e d = Inr (Some (new_match, A, B))"
  obtains len2paths reversed e rest g_plus g_minus add_e_new where
    "find_len2paths L g d (list_of_node_set L
        (filter (\<lambda>n. n \<notin> set (map fst match) \<and> n \<notin> set (map snd match)) (nodes g)))
       = Some (len2paths, reversed)"
    "list_of_edge_set L (filter (\<lambda>a. a \<notin> set match)
        (arcs_of (if reversed then rev (hd len2paths) else hd len2paths))) = e # rest"
    "form_subproblems g e add_e = Inr (g_plus, g_minus, add_e_new)"
    "new_match = new_match_of g d
        (arcs_of (if reversed then rev (hd len2paths) else hd len2paths)) add_e"
    "A = (g_minus, match, add_e)" "B = (g_plus, new_match, Some add_e_new)"
proof -
  let ?au = "list_of_node_set L
        (filter (\<lambda>n. n \<notin> set (map fst match) \<and> n \<notin> set (map snd match)) (nodes g))"
  from assms have ne: "?au \<noteq> []"
    by (auto simp: path_case_def Let_def split: if_splits)
  with assms obtain len2paths reversed where
    fl: "find_len2paths L g d ?au = Some (len2paths, reversed)"
    by (cases "find_len2paths L g d ?au") (auto simp: path_case_def Let_def)
  let ?lp = "arcs_of (if reversed then rev (hd len2paths) else hd len2paths)"
  from assms ne fl obtain e rest where
    e: "list_of_edge_set L (filter (\<lambda>a. a \<notin> set match) ?lp) = e # rest"
    by (cases "list_of_edge_set L (filter (\<lambda>a. a \<notin> set match) ?lp)")
       (auto simp: path_case_def Let_def)
  from assms ne fl e obtain g_plus g_minus add_e_new where
    f: "form_subproblems g e add_e = Inr (g_plus, g_minus, add_e_new)"
    by (cases "form_subproblems g e add_e") (auto simp: path_case_def Let_def)
  from assms ne fl e f
  have "new_match = new_match_of g d ?lp add_e"
    "A = (g_minus, match, add_e)" "B = (g_plus, new_match, Some add_e_new)"
    by (auto simp: path_case_def Let_def)
  with fl e f show ?thesis using that by blast
qed

lemma cycle_case_branch:
  assumes "cycle_case L g match add_e d cycle0 = Inr (Some (new_match, A, B))"
  obtains e rest g_plus g_minus add_e_new where
    "cycle0 \<noteq> []"
    "list_of_edge_set L (filter (\<lambda>a. a \<in> set (arcs_of (cycle0 @ [hd cycle0]))) match) = e # rest"
    "form_subproblems g e add_e = Inr (g_plus, g_minus, add_e_new)"
    "new_match = new_match_of g d (arcs_of (cycle0 @ [hd cycle0])) add_e"
    "A = (g_minus, new_match, add_e)" "B = (g_plus, match, Some add_e_new)"
proof -
  let ?cy = "arcs_of (cycle0 @ [hd cycle0])"
  from assms have ne: "cycle0 \<noteq> []" by (auto simp: cycle_case_def split: if_splits)
  with assms obtain e rest where
    e: "list_of_edge_set L (filter (\<lambda>a. a \<in> set ?cy) match) = e # rest"
    by (cases "list_of_edge_set L (filter (\<lambda>a. a \<in> set ?cy) match)")
       (auto simp: cycle_case_def Let_def)
  from assms ne e obtain g_plus g_minus add_e_new where
    f: "form_subproblems g e add_e = Inr (g_plus, g_minus, add_e_new)"
    by (cases "form_subproblems g e add_e") (auto simp: cycle_case_def Let_def)
  from assms ne e f
  have "new_match = new_match_of g d ?cy add_e"
    "A = (g_minus, new_match, add_e)" "B = (g_plus, match, Some add_e_new)"
    by (auto simp: cycle_case_def Let_def)
  with ne e f show ?thesis using that by blast
qed

lemma no_cycles_without_arcs:
  assumes "simple_cycles_ok L"
  shows "simple_cycles L [] = []"
proof (rule ccontr)
  assume "simple_cycles L [] \<noteq> []"
  then obtain c where "c \<in> set (simple_cycles L [])" by (cases "simple_cycles L []") auto
  with assms have c: "c \<noteq> []" "set (arcs_of (c @ [hd c])) \<subseteq> {}"
    unfolding simple_cycles_ok_def by force+
  from c(1) have "arcs_of (c @ [hd c]) \<noteq> []"
    by (simp add: arcs_of_snoc)
  with c(2) show False by simp
qed

section \<open>The accumulated list only grows\<close>

lemma enumIter_appends:
  "enumMaximumMatchingIter L g match all_matches add_e = Inr r \<Longrightarrow>
     \<exists>new. r = all_matches @ new"
proof (induction L g match all_matches add_e arbitrary: r rule: enumIter_induct)
  case (step L g match am add_e)
  show ?case
  proof (cases L g match add_e rule: step_cases)
    case (error err)
    with step.prems show ?thesis by (simp add: enumIter_error)
  next
    case leaf
    with step.prems show ?thesis by (simp add: enumIter_leaf)
  next
    case (branch nm gA mA aA gB mB aB)
    from step.prems obtain am' where
      a: "enumMaximumMatchingIter L gA mA (am @ [nm]) aA = Inr am'"
      and b: "enumMaximumMatchingIter L gB mB am' aB = Inr r"
      by (auto simp: enumIter_branch [OF branch] split: sum.splits)
    from step.IH(1) [OF branch a] obtain n1 where "am' = (am @ [nm]) @ n1" by blast
    moreover from step.IH(2) [OF branch a b] obtain n2 where "r = am' @ n2" by blast
    ultimately show ?thesis by simp
  qed
qed

text \<open>
  Claim C10. Whenever \<open>enumMaximumMatchingIter(g, match, all_matches, add_e)\<close> returns a
  list, the list starts with \<open>all_matches\<close> as it was passed in, entry for entry and in
  the same order: the call and the calls below it only append.
\<close>

theorem all_matches_is_prefix:
  "enumMaximumMatchingIter L g match all_matches add_e = Inr r \<Longrightarrow>
     take (length all_matches) r = all_matches \<and> length all_matches \<le> length r"
proof -
  assume "enumMaximumMatchingIter L g match all_matches add_e = Inr r"
  from enumIter_appends [OF this] obtain new where "r = all_matches @ new" by blast
  then show ?thesis by simp
qed

theorem all_matches_is_prefix_witness:
  "enumMaximumMatchingIter ref_library K22 [(0, 3), (1, 2)] [[(7, 7)], [(0, 3), (1, 2)]] None
     = Inr [[(7, 7)], [(0, 3), (1, 2)], [(0, 2), (1, 3)]] \<and>
   take (length [[(7, 7)], [(0, 3), (1, 2 :: nat)]])
        [[(7, 7)], [(0, 3), (1, 2)], [(0, 2), (1, 3)]] = [[(7 :: nat, 7)], [(0, 3), (1, 2)]]"
proof -
  have h: "enumMaximumMatchingIter ref_library K22 [(0, 3), (1, 2)]
             [[(7, 7)], [(0, 3), (1, 2)]] None
           = Inr [[(7, 7)], [(0, 3), (1, 2)], [(0, 2), (1, 3)]]"
    by code_simp
  from all_matches_is_prefix [OF h] h show ?thesis by simp
qed

section \<open>Termination and the depth of the recursion\<close>

text \<open>
  Claim C8. The graph of a self-call has lost the edge \<open>e\<close> (first self-call, nodes kept)
  or both end points of \<open>e\<close> and with them at least the edge \<open>e\<close> (second self-call);
  the recursion is well-founded on every argument; and its depth is at most the number
  of edges of the graph of the outermost call.
\<close>

theorem recursion_shrinks_and_terminates:
  "(iter_step L g match add_e = Inr (Some (new_match, (gA, mA, aA), (gB, mB, aB))) \<longrightarrow>
      (\<exists>e. remove_edge g (fst e) (snd e) = Inr gA \<and>
           nodes gA = nodes g \<and> length (edges gA) < length (edges g) \<and>
           (\<exists>g1. remove_node g (fst e) = Inr g1 \<and> remove_node g1 (snd e) = Inr gB) \<and>
           length (nodes gB) < length (nodes g) \<and> length (edges gB) < length (edges g)))
   \<and> enumMaximumMatchingIter_dom (L, g, match, all_matches, add_e)
   \<and> recursion_depth L g match all_matches add_e \<le> length (edges g)"
proof (intro conjI impI)
  assume st: "iter_step L g match add_e = Inr (Some (new_match, (gA, mA, aA), (gB, mB, aB)))"
  from iter_step_subproblems [OF st] obtain e a
    where f: "form_subproblems g e add_e = Inr (gB, gA, a)" by blast
  from form_subproblems_parts(1,2) [OF f] form_subproblems_smaller [OF f]
  show "\<exists>e. remove_edge g (fst e) (snd e) = Inr gA \<and>
           nodes gA = nodes g \<and> length (edges gA) < length (edges g) \<and>
           (\<exists>g1. remove_node g (fst e) = Inr g1 \<and> remove_node g1 (snd e) = Inr gB) \<and>
           length (nodes gB) < length (nodes g) \<and> length (edges gB) < length (edges g)"
    by blast
next
  show "enumMaximumMatchingIter_dom (L, g, match, all_matches, add_e)"
    by (rule enumIter_dom)
next
  show "recursion_depth L g match all_matches add_e \<le> length (edges g)"
    by (rule recursion_depth_bound)
qed


theorem recursion_shrinks_and_terminates_witness:
  "\<exists>new_match gA mA aA gB mB aB.
     iter_step ref_library K22 [(0, 3), (1, 2)] None
       = Inr (Some (new_match, (gA, mA, aA), (gB, mB, aB))) \<and>
     length (edges gA) < length (edges K22) \<and>
     length (nodes gB) < length (nodes K22) \<and>
     recursion_depth ref_library K22 [(0, 3), (1, 2)] [[(0, 3), (1, 2)]] None
       \<le> length (edges K22)"
proof -
  have "step_view (iter_step ref_library K22 [(0, 3), (1, 2)] None) =
     Inr (Some ([(0, 2), (1, 3)],
        ([0, 1, 2, 3], [(0, 2), (1, 2), (1, 3)], [(0, 2), (1, 3)], None),
        ([1, 2], [(1, 2)], [(0, 3), (1, 2)], Some [(0, 3)])))"
    by code_simp
  then obtain new_match gA mA aA gB mB aB where
    st: "iter_step ref_library K22 [(0, 3), (1, 2)] None
           = Inr (Some (new_match, (gA, mA, aA), (gB, mB, aB)))"
    by (cases "iter_step ref_library K22 [(0, 3), (1, 2)] None")
       (auto simp: step_view_def)
  from recursion_shrinks_and_terminates
    [of ref_library K22 "[(0, 3), (1, 2)]" None new_match gA mA aA gB mB aB
        "[[(0, 3), (1, 2)]]"] st
  show ?thesis by blast
qed

section \<open>The two self-calls of a step\<close>

text \<open>
  Claim C4, as the code has it. A step that records a new matching makes its first
  self-call on the graph without the edge \<open>e\<close> and with \<open>add_e\<close> unchanged, and its second
  on the graph without the two end points of \<open>e\<close> and with \<open>e\<close> put in front of \<open>add_e\<close>.
  Where no cycle was found (the path case) the first self-call keeps the current matching
  and the second takes the new one, and \<open>e\<close> is not in the current matching. Where a cycle
  was found the two are exchanged: the first self-call takes the new matching, the second
  keeps the current one, and \<open>e\<close> is an edge of the current matching.
\<close>

theorem two_way_split:
  assumes "iter_step L g match add_e = Inr (Some (new_match, (gA, mA, aA), (gB, mB, aB)))"
  shows "\<exists>e g1.
     remove_edge g (fst e) (snd e) = Inr gA \<and>
     remove_node g (fst e) = Inr g1 \<and> remove_node g1 (snd e) = Inr gB \<and>
     aA = add_e \<and> aB = Some (e # (case add_e of None \<Rightarrow> [] | Some a \<Rightarrow> a)) \<and>
     (if simple_cycles L (formDirected g match) = []
      then mA = match \<and> mB = new_match \<and> (set_listing_ok L \<longrightarrow> e \<notin> set match)
      else mA = new_match \<and> mB = match \<and> (set_listing_ok L \<longrightarrow> e \<in> set match))"
proof (cases "simple_cycles L (formDirected g match) = []")
  case True
  let ?d = "formDirected g match"
  from assms True have pc: "path_case L g match add_e ?d =
      Inr (Some (new_match, (gA, mA, aA), (gB, mB, aB)))"
    by (simp add: iter_step_def Let_def)
  from pc obtain len2paths reversed e rest g_plus g_minus add_e_new where
    e: "list_of_edge_set L (filter (\<lambda>a. a \<notin> set match)
        (arcs_of (if reversed then rev (hd len2paths) else hd len2paths))) = e # rest"
    and f: "form_subproblems g e add_e = Inr (g_plus, g_minus, add_e_new)"
    and r: "(gA, mA, aA) = (g_minus, match, add_e)"
           "(gB, mB, aB) = (g_plus, new_match, Some add_e_new)"
    by (rule path_case_branch)
  have "set_listing_ok L \<longrightarrow> e \<notin> set match"
  proof
    assume "set_listing_ok L"
    then have "set (e # rest) = set (filter (\<lambda>a. a \<notin> set match)
        (arcs_of (if reversed then rev (hd len2paths) else hd len2paths)))"
      unfolding e [symmetric] by (simp add: set_listing_ok_def)
    then show "e \<notin> set match" by auto
  qed
  moreover from form_subproblems_parts [OF f] obtain g1 where
    "remove_node g (fst e) = Inr g1" "remove_node g1 (snd e) = Inr g_plus"
    "remove_edge g (fst e) (snd e) = Inr g_minus"
    "add_e_new = e # (case add_e of None \<Rightarrow> [] | Some a \<Rightarrow> a)" by blast
  ultimately show ?thesis using r True
    by (intro exI [of _ e] exI [of _ g1]) simp
next
  case False
  let ?d = "formDirected g match"
  from assms False have cc: "cycle_case L g match add_e ?d (hd (simple_cycles L ?d)) =
      Inr (Some (new_match, (gA, mA, aA), (gB, mB, aB)))"
    by (simp add: iter_step_def Let_def)
  from cc obtain e rest g_plus g_minus add_e_new where
    e: "list_of_edge_set L (filter (\<lambda>a. a \<in> set (arcs_of (hd (simple_cycles L ?d)
           @ [hd (hd (simple_cycles L ?d))]))) match) = e # rest"
    and f: "form_subproblems g e add_e = Inr (g_plus, g_minus, add_e_new)"
    and r: "(gA, mA, aA) = (g_minus, new_match, add_e)"
           "(gB, mB, aB) = (g_plus, match, Some add_e_new)"
    by (rule cycle_case_branch)
  have "set_listing_ok L \<longrightarrow> e \<in> set match"
  proof
    assume "set_listing_ok L"
    then have "set (e # rest) = set (filter (\<lambda>a. a \<in> set (arcs_of (hd (simple_cycles L ?d)
           @ [hd (hd (simple_cycles L ?d))]))) match)"
      unfolding e [symmetric] by (simp add: set_listing_ok_def)
    then show "e \<in> set match" by auto
  qed
  moreover from form_subproblems_parts [OF f] obtain g1 where
    "remove_node g (fst e) = Inr g1" "remove_node g1 (snd e) = Inr g_plus"
    "remove_edge g (fst e) (snd e) = Inr g_minus"
    "add_e_new = e # (case add_e of None \<Rightarrow> [] | Some a \<Rightarrow> a)" by blast
  ultimately show ?thesis using r False
    by (intro exI [of _ e] exI [of _ g1]) simp
qed


theorem two_way_split_witness:
  "\<exists>new_match gA mA aA gB mB aB.
     iter_step ref_library K22 [(0, 3), (1, 2)] None
       = Inr (Some (new_match, (gA, mA, aA), (gB, mB, aB))) \<and>
     (\<exists>e g1.
        remove_edge K22 (fst e) (snd e) = Inr gA \<and>
        remove_node K22 (fst e) = Inr g1 \<and> remove_node g1 (snd e) = Inr gB \<and>
        aA = None \<and> aB = Some [e] \<and> mA = new_match \<and> mB = [(0, 3), (1, 2)] \<and>
        e \<in> set [(0, 3), (1, 2)])"
proof -
  have v: "simple_cycles ref_library (formDirected K22 [(0, 3), (1, 2)]) \<noteq> [] \<and>
    step_view (iter_step ref_library K22 [(0, 3), (1, 2)] None) =
     Inr (Some ([(0, 2), (1, 3)],
        ([0, 1, 2, 3], [(0, 2), (1, 2), (1, 3)], [(0, 2), (1, 3)], None),
        ([1, 2], [(1, 2)], [(0, 3), (1, 2)], Some [(0, 3)])))"
    by code_simp
  then obtain new_match gA mA aA gB mB aB where
    st: "iter_step ref_library K22 [(0, 3), (1, 2)] None
           = Inr (Some (new_match, (gA, mA, aA), (gB, mB, aB)))"
    by (cases "iter_step ref_library K22 [(0, 3), (1, 2)] None")
       (auto simp: step_view_def)
  from two_way_split [OF st] v ref_set_listing_ok [where ?'a = nat]
  have "\<exists>e g1.
        remove_edge K22 (fst e) (snd e) = Inr gA \<and>
        remove_node K22 (fst e) = Inr g1 \<and> remove_node g1 (snd e) = Inr gB \<and>
        aA = None \<and> aB = Some [e] \<and> mA = new_match \<and> mB = [(0, 3), (1, 2)] \<and>
        e \<in> set [(0, 3), (1, 2)]"
    by auto
  with st show ?thesis by blast
qed

text \<open>The claim as stated fails in the cycle case: on K(2,2) with the matching
  \<open>[(0, 3), (1, 2)]\<close> a cycle is found, the new matching is \<open>[(0, 2), (1, 3)]\<close>, and it is
  the first self-call (graph without the edge \<open>(0, 3)\<close>) that takes the new matching,
  while the second (graph without the nodes 0 and 3) keeps the current one.\<close>

theorem cycle_step_counterexample:
  "simple_cycles ref_library (formDirected K22 [(0, 3), (1, 2)]) \<noteq> [] \<and>
   step_view (iter_step ref_library K22 [(0, 3), (1, 2)] None) =
     Inr (Some ([(0, 2), (1, 3)],
        ([0, 1, 2, 3], [(0, 2), (1, 2), (1, 3)], [(0, 2), (1, 3)], None),
        ([1, 2], [(1, 2)], [(0, 3), (1, 2)], Some [(0, 3)])))"
  by code_simp

section \<open>No check of the sides at entry\<close>

text \<open>
  Claim C5, as the code has it. \<open>enumMaximumMatching\<close> makes no check of its own: it
  fails at entry exactly when the matching solver raises, and otherwise starts the
  recursion on the graph as given, with the solver's matching re-oriented.
\<close>

theorem no_check_at_entry:
  "(hopcroft_karp_matching L g = Inl err \<longrightarrow> enumMaximumMatching L g = Inl err) \<and>
   (hopcroft_karp_matching L g = Inr items \<longrightarrow>
      enumMaximumMatching L g =
        enumMaximumMatchingIter L g (filter (\<lambda>kv. bipartite g (fst kv) = 0) items)
          [filter (\<lambda>kv. bipartite g (fst kv) = 0) items] None)"
  by (simp add: enumMaximumMatching_def Let_def)


theorem no_check_at_entry_witness:
  "hopcroft_karp_matching ref_library same_side_edge = Inr [(0, 1), (1, 0)] \<and>
   enumMaximumMatching ref_library same_side_edge =
     enumMaximumMatchingIter ref_library same_side_edge
       (filter (\<lambda>kv. bipartite same_side_edge (fst kv) = 0) [(0, 1), (1, 0)])
       [filter (\<lambda>kv. bipartite same_side_edge (fst kv) = 0) [(0, 1), (1, 0)]] None"
proof -
  have h: "hopcroft_karp_matching ref_library same_side_edge = Inr [(0, 1), (1, 0)]"
    by code_simp
  from no_check_at_entry [of ref_library same_side_edge NetworkXError "[(0, 1), (1, 0)]"] h
  show ?thesis by blast
qed

text \<open>The claim as stated fails: the graph with the single edge between the nodes 0 and
  1, both on side 0, is not rejected; the call returns a list.\<close>

theorem same_side_edge_counterexample:
  "(0, 1) \<in> set (edges same_side_edge) \<and>
   bipartite same_side_edge 0 = bipartite same_side_edge 1 \<and>
   enumMaximumMatching ref_library same_side_edge = Inr [[(0, 1), (1, 0)]]"
  by code_simp

section \<open>The graph without nodes\<close>

text \<open>
  Claim C6. On the graph with no nodes \<open>enumMaximumMatching\<close> raises nothing and returns
  the list whose only element is the empty matching.
\<close>

theorem empty_graph_one_empty_matching:
  assumes "bipartite_graph g" and "nodes g = []"
    and "hopcroft_karp_ok L g" and "library_ok L"
  shows "enumMaximumMatching L g = Inr [[]]"
proof -
  from assms(1,2) have e: "edges g = []"
    by (cases "edges g") (auto simp: bipartite_graph_def)
  from assms(3) obtain items where items: "hopcroft_karp_matching L g = Inr items"
    and sub: "\<forall>kv \<in> set items. kv \<in> set (edges g) \<or> (snd kv, fst kv) \<in> set (edges g)"
    unfolding hopcroft_karp_ok_def by blast
  from sub e have "items = []" by (cases items) auto
  from assms(4) have cyc: "simple_cycles_ok L" and sl: "set_listing_ok L"
    by (simp_all add: library_ok_def)
  have "set (list_of_node_set L []) = {}"
    using sl unfolding set_listing_ok_def by (metis empty_set)
  then have "list_of_node_set L [] = []" by simp
  then have "iter_step L g [] None = Inr None"
    by (simp add: iter_step_def formDirected_def e no_cycles_without_arcs [OF cyc]
        path_case_def assms(2))
  then have "enumMaximumMatchingIter L g [] [[]] None = Inr [[]]"
    by (rule enumIter_leaf)
  with items \<open>items = []\<close> show ?thesis by (simp add: enumMaximumMatching_def)
qed


theorem empty_graph_one_empty_matching_witness:
  "bipartite_graph empty_graph \<and> nodes empty_graph = [] \<and>
   hopcroft_karp_ok ref_library empty_graph \<and> library_ok (ref_library :: nat library) \<and>
   enumMaximumMatching ref_library empty_graph = Inr [[]]"
proof -
  have b: "bipartite_graph empty_graph"
    by (simp add: bipartite_graph_def empty_graph_def)
  have n: "nodes empty_graph = []" by (simp add: empty_graph_def)
  from empty_graph_one_empty_matching [OF b n ref_hopcroft_karp_ok ref_library_ok]
    b n ref_hopcroft_karp_ok [of empty_graph] ref_library_ok [where ?'a = nat]
  show ?thesis by blast
qed

section \<open>The orientation of the pairs\<close>

text \<open>
  Claim C7 does not hold of the code. On the graph \<open>two_stars\<close> the fourth matching
  returned contains the pair \<open>(2, 0)\<close>, whose first component is on side 1 and whose
  second is on side 0: the edge \<open>e\<close> chosen from a path of two arcs is the arc of \<open>d\<close>
  that leaves the uncovered node, it goes into \<open>add_e\<close> as it is, and \<open>add_e\<close> is
  appended to every matching found below.
\<close>

theorem forced_edge_reversed:
  "enumMaximumMatching ref_library two_stars =
     Inr [[(0, 3), (1, 5)], [(0, 2), (1, 5)], [(0, 3), (1, 4)], [(1, 4), (2, 0)]] \<and>
   bipartite two_stars 2 = 1 \<and> bipartite two_stars 0 = 0"
  by code_simp


end
